theory Spec2Isabelle
  imports Main
begin

section \<open>Go strings: bytes and UTF-8 decoding\<close>

text \<open>
  A Go \<open>string\<close> is a sequence of bytes, so it is modelled by \<^typ>\<open>string\<close>, whose
  characters are bytes. Runes (code points) are natural numbers. The library functions
  the sanitizers call (\<open>strings\<close>, \<open>unicode\<close>, \<open>unicode/utf8\<close>, \<open>path/filepath\<close>)
  are written out from the Go standard library.
\<close>

abbreviation byte :: "char \<Rightarrow> nat" where
  "byte c \<equiv> of_char c"

definition RuneError :: nat where
  "RuneError = 0xFFFD"

text \<open>
  \<open>utf8.first\<close> and \<open>utf8.acceptRanges\<close>: for a leading byte, the length of the
  sequence and the range its second byte must lie in; \<open>None\<close> for a byte that starts no
  sequence (the entry \<open>xx\<close>).
\<close>

definition lead :: "nat \<Rightarrow> (nat \<times> nat \<times> nat) option" where
  "lead b =
     (if b < 0xC2 then None
      else if b < 0xE0 then Some (2, 0x80, 0xBF)
      else if b = 0xE0 then Some (3, 0xA0, 0xBF)
      else if b < 0xED then Some (3, 0x80, 0xBF)
      else if b = 0xED then Some (3, 0x80, 0x9F)
      else if b < 0xF0 then Some (3, 0x80, 0xBF)
      else if b = 0xF0 then Some (4, 0x90, 0xBF)
      else if b < 0xF4 then Some (4, 0x80, 0xBF)
      else if b = 0xF4 then Some (4, 0x80, 0x8F)
      else None)"

definition cont :: "char \<Rightarrow> bool" where
  \<comment> \<open>a continuation byte: \<open>locb \<le> b \<le> hicb\<close>\<close>
  "cont c \<longleftrightarrow> 0x80 \<le> byte c \<and> byte c \<le> 0xBF"

text \<open>
  \<open>utf8.DecodeRuneInString\<close>: the first rune of the string and its width in bytes.
  The three functions below are its code after the leading byte, for a sequence of two,
  three and four bytes: a string that is too short (\<open>n < sz\<close>), a second byte out of
  the accepted range or a later byte that is no continuation byte give
  \<open>(RuneError, 1)\<close>.
\<close>

fun decode2 :: "nat \<Rightarrow> nat \<Rightarrow> nat \<Rightarrow> string \<Rightarrow> nat \<times> nat" where
  "decode2 s0 lo hi (c1 # cs) =
     (if byte c1 < lo \<or> hi < byte c1 then (RuneError, 1)
      else ((s0 mod 32) * 64 + byte c1 mod 64, 2))"
| "decode2 s0 lo hi [] = (RuneError, 1)"

fun decode3 :: "nat \<Rightarrow> nat \<Rightarrow> nat \<Rightarrow> string \<Rightarrow> nat \<times> nat" where
  "decode3 s0 lo hi (c1 # c2 # cs) =
     (if byte c1 < lo \<or> hi < byte c1 then (RuneError, 1)
      else if \<not> cont c2 then (RuneError, 1)
      else ((s0 mod 16) * 4096 + (byte c1 mod 64) * 64 + byte c2 mod 64, 3))"
| "decode3 s0 lo hi cs = (RuneError, 1)"

fun decode4 :: "nat \<Rightarrow> nat \<Rightarrow> nat \<Rightarrow> string \<Rightarrow> nat \<times> nat" where
  "decode4 s0 lo hi (c1 # c2 # c3 # cs) =
     (if byte c1 < lo \<or> hi < byte c1 then (RuneError, 1)
      else if \<not> cont c2 then (RuneError, 1)
      else if \<not> cont c3 then (RuneError, 1)
      else ((s0 mod 8) * 262144 + (byte c1 mod 64) * 4096 + (byte c2 mod 64) * 64
            + byte c3 mod 64, 4))"
| "decode4 s0 lo hi cs = (RuneError, 1)"

fun DecodeRuneInString :: "string \<Rightarrow> nat \<times> nat" where
  "DecodeRuneInString [] = (RuneError, 0)"
| "DecodeRuneInString (c # cs) =
     (if byte c < 0x80 then (byte c, 1)
      else case lead (byte c) of
        None \<Rightarrow> (RuneError, 1)
      | Some (sz, lo, hi) \<Rightarrow>
          if sz = 2 then decode2 (byte c) lo hi cs
          else if sz = 3 then decode3 (byte c) lo hi cs
          else decode4 (byte c) lo hi cs)"

text \<open>
  \<open>for _, r := range s\<close>: the runes of the string from left to right, each with the
  bytes it was decoded from. A byte that starts no valid sequence is the rune
  \<open>RuneError\<close> of width one.
\<close>

fun runes :: "string \<Rightarrow> (nat \<times> string) list" where
  "runes [] = []"
| "runes (c # cs) =
     (let n = snd (DecodeRuneInString (c # cs))
      in (fst (DecodeRuneInString (c # cs)), c # take (n - 1) cs) # runes (drop (n - 1) cs))"

text \<open>\<open>unicode.IsSpace\<close>: the Latin-1 cases and the \<open>White_Space\<close> table.\<close>

definition IsSpace :: "nat \<Rightarrow> bool" where
  "IsSpace r \<longleftrightarrow>
     (0x09 \<le> r \<and> r \<le> 0x0D) \<or> r = 0x20 \<or> r = 0x85 \<or> r = 0xA0 \<or> r = 0x1680
     \<or> (0x2000 \<le> r \<and> r \<le> 0x200A) \<or> r = 0x2028 \<or> r = 0x2029 \<or> r = 0x202F
     \<or> r = 0x205F \<or> r = 0x3000"

abbreviation space_rune :: "nat \<times> string \<Rightarrow> bool" where
  "space_rune t \<equiv> IsSpace (fst t)"

text \<open>
  \<open>strings.TrimSpace\<close>: the string without its leading and trailing white-space runes.
\<close>

definition TrimLeft :: "string \<Rightarrow> string" where
  "TrimLeft s = concat (map snd (dropWhile space_rune (runes s)))"

definition TrimRight :: "string \<Rightarrow> string" where
  "TrimRight s = concat (map snd (rev (dropWhile space_rune (rev (runes s)))))"

definition TrimSpace :: "string \<Rightarrow> string" where
  "TrimSpace s = TrimRight (TrimLeft s)"

text \<open>
  \<open>utf8.AppendRune\<close>, which \<open>strings.Builder.WriteRune\<close> calls: the UTF-8 encoding
  of a rune; a surrogate or a value beyond \<open>MaxRune\<close> is written as \<open>RuneError\<close>.
\<close>

definition EncodeRune :: "nat \<Rightarrow> string" where
  "EncodeRune r =
     (if r \<le> 0x7F then [char_of r]
      else if r \<le> 0x7FF then [char_of (0xC0 + r div 64), char_of (0x80 + r mod 64)]
      else if 0x10FFFF < r \<or> (0xD800 \<le> r \<and> r \<le> 0xDFFF) then [CHR 0xEF, CHR 0xBF, CHR 0xBD]
      else if r \<le> 0xFFFF then
        [char_of (0xE0 + r div 4096), char_of (0x80 + (r div 64) mod 64),
         char_of (0x80 + r mod 64)]
      else
        [char_of (0xF0 + r div 262144), char_of (0x80 + (r div 4096) mod 64),
         char_of (0x80 + (r div 64) mod 64), char_of (0x80 + r mod 64)])"

text \<open>
  \<open>utf8.ValidRune\<close>, and the conversion \<open>string(rs)\<close> of a slice of runes to the
  string of their encodings.
\<close>

definition ValidRune :: "nat \<Rightarrow> bool" where
  "ValidRune r \<longleftrightarrow> r < 0xD800 \<or> (0xDFFF < r \<and> r \<le> 0x10FFFF)"

definition string_of_runes :: "nat list \<Rightarrow> string" where
  "string_of_runes rs = concat (map EncodeRune rs)"

text \<open>\<open>utf8.RuneCountInString\<close> counts the runes that ranging over the string yields.\<close>

definition RuneCountInString :: "string \<Rightarrow> nat" where
  "RuneCountInString s = length (runes s)"

text \<open>
  \<open>strings.Fields\<close>: the loop of \<open>FieldsFunc\<close> over the runes of the string. \<open>cur\<close> is
  the span \<open>s[start:end]\<close> of the field being read, empty while \<open>start < 0\<close>.
\<close>

fun fields_loop :: "(nat \<times> string) list \<Rightarrow> string \<Rightarrow> string list" where
  "fields_loop [] cur = (if cur = [] then [] else [cur])"
| "fields_loop (t # ts) cur =
     (if space_rune t then (if cur = [] then fields_loop ts [] else cur # fields_loop ts [])
      else fields_loop ts (cur @ snd t))"

definition Fields :: "string \<Rightarrow> string list" where
  "Fields s = fields_loop (runes s) []"

text \<open>A field: a string that is not empty and holds no white-space rune.\<close>

definition nonspace :: "string \<Rightarrow> bool" where
  "nonspace f \<longleftrightarrow> f \<noteq> [] \<and> (\<forall>t \<in> set (runes f). \<not> space_rune t)"

text \<open>\<open>strings.Join\<close>.\<close>

fun Join :: "string list \<Rightarrow> string \<Rightarrow> string" where
  "Join [] sep = []"
| "Join [x] sep = x"
| "Join (x # y # ys) sep = x @ sep @ Join (y # ys) sep"

text \<open>
  \<open>strings.Contains\<close>: \<open>Index(s, substr) >= 0\<close>, a search for the bytes of \<open>substr\<close> at
  every position of \<open>s\<close>.
\<close>

fun HasPrefix :: "string \<Rightarrow> string \<Rightarrow> bool" where
  "HasPrefix s [] = True"
| "HasPrefix [] (p # ps) = False"
| "HasPrefix (c # cs) (p # ps) = (c = p \<and> HasPrefix cs ps)"

fun Contains :: "string \<Rightarrow> string \<Rightarrow> bool" where
  "Contains [] substr = (substr = [])"
| "Contains (c # cs) substr = (HasPrefix (c # cs) substr \<or> Contains cs substr)"

text \<open>
  \<open>strings.ToLower\<close> and \<open>strings.ToUpper\<close>: a string of ASCII bytes is mapped byte by
  byte; any other string goes through \<open>strings.Map\<close>, which decodes each rune, maps it
  and writes the encoding of the result. \<open>unicode.ToLower\<close> and \<open>unicode.ToUpper\<close>
  are written out for ASCII; beyond ASCII they read the tables \<open>unicode.CaseRanges\<close>,
  which are a parameter here (\<open>tbl\<close>, a function on runes).
\<close>

definition Map :: "(nat \<Rightarrow> nat) \<Rightarrow> string \<Rightarrow> string" where
  "Map mapping s = concat (map (\<lambda>t. EncodeRune (mapping (fst t))) (runes s))"

definition unicode_ToLower :: "(nat \<Rightarrow> nat) \<Rightarrow> nat \<Rightarrow> nat" where
  "unicode_ToLower tbl r =
     (if r \<le> 0x7F then (if 0x41 \<le> r \<and> r \<le> 0x5A then r + 32 else r) else tbl r)"

definition unicode_ToUpper :: "(nat \<Rightarrow> nat) \<Rightarrow> nat \<Rightarrow> nat" where
  "unicode_ToUpper tbl r =
     (if r \<le> 0x7F then (if 0x61 \<le> r \<and> r \<le> 0x7A then r - 32 else r) else tbl r)"

definition lower_byte :: "char \<Rightarrow> char" where
  "lower_byte c = (if 0x41 \<le> byte c \<and> byte c \<le> 0x5A then char_of (byte c + 32) else c)"

definition upper_byte :: "char \<Rightarrow> char" where
  "upper_byte c = (if 0x61 \<le> byte c \<and> byte c \<le> 0x7A then char_of (byte c - 32) else c)"

definition ToLower :: "(nat \<Rightarrow> nat) \<Rightarrow> string \<Rightarrow> string" where
  "ToLower tbl s =
     (if \<forall>c \<in> set s. byte c < 0x80 then map lower_byte s else Map (unicode_ToLower tbl) s)"

definition ToUpper :: "(nat \<Rightarrow> nat) \<Rightarrow> string \<Rightarrow> string" where
  "ToUpper tbl s =
     (if \<forall>c \<in> set s. byte c < 0x80 then map upper_byte s else Map (unicode_ToUpper tbl) s)"

text \<open>
  \<open>filepath.Ext\<close> (with \<open>/\<close> as the path separator): the loop runs from the last byte
  towards the first, stops at a separator and returns the suffix that starts at the
  first dot it meets. \<open>ext_scan\<close> takes the bytes still to visit, last byte first, and
  the bytes already visited.
\<close>

fun ext_scan :: "string \<Rightarrow> string \<Rightarrow> string" where
  "ext_scan [] seen = []"
| "ext_scan (c # cs) seen =
     (if c = CHR ''/'' then []
      else if c = CHR ''.'' then c # seen
      else ext_scan cs (c # seen))"

definition Ext :: "string \<Rightarrow> string" where
  "Ext path = ext_scan (rev path) []"

section \<open>The sanitizers\<close>

datatype error =
    ErrorInvalidUsername
  | ErrorInvalidHallName
  | ErrorInvalidDisplayName
  | ErrorInvalidEmail
  | ErrorInvalidPhoneNumber
  | ErrorPasswordWhiteSpace
  | ErrorInvalidPassword
  | ErrorInvalidBannerColor
  | ErrorInvalidFileName
  | ErrorBadFileType
  | ErrorFileUnmatch

subsection \<open>File names\<close>

text \<open>
  \<open>os.Stat\<close> reads the file system, which is a parameter of the model: it maps a path to
  the error of the call, \<open>None\<close> being Go's \<open>nil\<close> (an entry exists and could be read).
  \<open>os.IsNotExist\<close> is false on \<open>nil\<close>.
\<close>

datatype os_error = ErrNotExist | ErrPermission | ErrIO

type_synonym filesystem = "string \<Rightarrow> os_error option"

definition os_IsNotExist :: "os_error option \<Rightarrow> bool" where
  "os_IsNotExist err \<longleftrightarrow> err = Some ErrNotExist"

definition no_entries :: filesystem where
  \<comment> \<open>a file system on which no path exists\<close>
  "no_entries path = Some ErrNotExist"

definition ValidateFileName :: "filesystem \<Rightarrow> string \<Rightarrow> error + string" where
  "ValidateFileName os_Stat fileName =
     (let s = TrimSpace fileName;
          err = os_Stat s
      in if err = None \<and> os_IsNotExist err then Inr s else Inl ErrorInvalidFileName)"

subsection \<open>File types\<close>

definition blockedExt :: "string set" where
  "blockedExt =
     {''.exe'', ''.bat'', ''.cmd'', ''.msix'',
      ''.scr'', ''.pif'', ''.dll'', ''.jse'', ''.vbs'',
      ''.vbe'', ''.wsf'', ''.wsh'', ''.ps1'', ''.psm1'', ''.reg'',
      ''.jar'', ''.dmg'', ''.iso'', ''.pkg'', ''.sh'',
      ''.virus''}"

definition ValidateFileType :: "(nat \<Rightarrow> nat) \<Rightarrow> string option \<Rightarrow> string \<Rightarrow> error + string" where
  "ValidateFileType tbl fileType url =
     (let ext = ToLower tbl (Ext url) in
      if ext \<in> blockedExt then Inl ErrorBadFileType
      else case fileType of
        None \<Rightarrow> Inr ext
      | Some ft \<Rightarrow> if \<not> Contains (ToLower tbl ft) ext then Inl ErrorFileUnmatch else Inr ext)"

subsection \<open>Names\<close>

text \<open>
  The regular expressions are matched against the runes of the string.
  \<open>usernameRegex\<close> is \<^verbatim>\<open>^[a-z0-9_.-]{3,32}$\<close>.
\<close>

definition username_rune :: "nat \<Rightarrow> bool" where
  "username_rune r \<longleftrightarrow>
     (0x61 \<le> r \<and> r \<le> 0x7A) \<or> (0x30 \<le> r \<and> r \<le> 0x39) \<or> r = 0x5F \<or> r = 0x2E \<or> r = 0x2D"

definition usernameRegex :: "string \<Rightarrow> bool" where
  "usernameRegex s \<longleftrightarrow>
     (let rs = map fst (runes s)
      in 3 \<le> length rs \<and> length rs \<le> 32 \<and> list_all username_rune rs)"

definition SanitizeUsername :: "(nat \<Rightarrow> nat) \<Rightarrow> string \<Rightarrow> error + string" where
  "SanitizeUsername tbl s0 =
     (let s = TrimSpace s0;
          s = ToLower tbl s
      in if \<not> usernameRegex s then Inl ErrorInvalidUsername else Inr s)"

text \<open>
  \<open>norm.NFKC.String\<close> comes from \<open>golang.org/x/text\<close> and reads the Unicode
  normalization tables; it is a parameter of the model (\<open>nfkc\<close>).
\<close>

definition SanitizeDisplayName :: "(string \<Rightarrow> string) \<Rightarrow> string \<Rightarrow> error + string" where
  "SanitizeDisplayName nfkc s0 =
     (let s = TrimSpace s0;
          s = nfkc s;
          s = Join (Fields s) '' ''
      in if s = [] then Inl ErrorInvalidDisplayName
         else let length = RuneCountInString s
         in if length < 3 \<or> length > 32 then Inl ErrorInvalidDisplayName
            else Inr s)"

subsection \<open>Phone numbers\<close>

text \<open>A \<open>*string\<close> is a \<^typ>\<open>string option\<close>, \<open>nil\<close> being \<open>None\<close>.\<close>

definition keepPlusDigits :: "string \<Rightarrow> string" where
  "keepPlusDigits s =
     concat (map (\<lambda>t. if fst t = 0x2B \<or> (0x30 \<le> fst t \<and> fst t \<le> 0x39)
                        then EncodeRune (fst t) else [])
                 (runes s))"

text \<open>The bytes a phone number keeps: the plus sign and the decimal digits.\<close>

definition plus_or_digit :: "char \<Rightarrow> bool" where
  "plus_or_digit c \<longleftrightarrow> c \<in> set ''+0123456789''"

definition SanitizePhoneE164 :: "string option \<Rightarrow> error + string option" where
  "SanitizePhoneE164 ptr =
     (case ptr of
        None \<Rightarrow> Inr None
      | Some p \<Rightarrow>
          let s = TrimSpace p in
          if s = [] then Inr None
          else let s = keepPlusDigits s in
          if length s < 7 \<or> length s > 20 then Inl ErrorInvalidPhoneNumber
          else Inr (Some s))"

subsection \<open>Passwords\<close>

text \<open>
  \<open>passwordvalidator.Validate\<close> estimates the entropy of the password in floating
  point; it is a parameter (\<open>Validate\<close>, true when the call returns no error).
\<close>

definition minEntropyBits :: nat where
  "minEntropyBits = 60"

definition SanitizePasswordPolicy :: "(string \<Rightarrow> nat \<Rightarrow> bool) \<Rightarrow> string \<Rightarrow> error + string" where
  "SanitizePasswordPolicy Validate raw =
     (if TrimSpace raw \<noteq> raw then Inl ErrorPasswordWhiteSpace
      else if \<not> Validate raw minEntropyBits then Inl ErrorInvalidPassword
      else Inr raw)"

subsection \<open>Colours\<close>

text \<open>\<open>hexRegex\<close> is \<^verbatim>\<open>^#(?:[0-9a-fA-F]{3}){1,2}$\<close>.\<close>

definition hex_rune :: "nat \<Rightarrow> bool" where
  "hex_rune r \<longleftrightarrow>
     (0x30 \<le> r \<and> r \<le> 0x39) \<or> (0x61 \<le> r \<and> r \<le> 0x66) \<or> (0x41 \<le> r \<and> r \<le> 0x46)"

definition hexRegex :: "string \<Rightarrow> bool" where
  "hexRegex s \<longleftrightarrow>
     (case map fst (runes s) of
        [] \<Rightarrow> False
      | r # rs \<Rightarrow> r = 0x23 \<and> list_all hex_rune rs \<and> (length rs = 3 \<or> length rs = 6))"

definition SanitizeColorFormat :: "string option \<Rightarrow> error + string option" where
  "SanitizeColorFormat colorHex =
     (case colorHex of
        None \<Rightarrow> Inr None
      | Some c \<Rightarrow>
          let s = TrimSpace c in
          if s = [] then Inr None
          else if \<not> hexRegex s then Inl ErrorInvalidBannerColor
          else Inr (Some s))"

subsection \<open>Message content\<close>

text \<open>
  \<open>SanitizeMessageContent\<close> reads \<open>*content\<close> with no test for \<open>nil\<close>; reading through
  a nil pointer is a run-time panic. The policy \<open>bluemonday.UGCPolicy().Sanitize\<close> is a
  parameter (\<open>Sanitize\<close>).
\<close>

datatype panic = NilPointerDereference

definition SanitizeMessageContent ::
    "(string \<Rightarrow> string) \<Rightarrow> (string \<Rightarrow> string) \<Rightarrow> string option \<Rightarrow> panic + string" where
  "SanitizeMessageContent nfkc Sanitize content =
     (case content of
        None \<Rightarrow> Inl NilPointerDereference
      | Some c \<Rightarrow>
          let s = TrimSpace c;
              s = nfkc s;
              s = Sanitize s
          in Inr s)"

section \<open>Decoding and concatenation\<close>

text \<open>
  Decoding looks at no byte beyond the first that is not a continuation byte, so the
  runes of a concatenation are the runes of its parts whenever the second part starts
  with such a byte (an ASCII byte, or the leading byte of a sequence).
\<close>

declare runes.simps [simp del]
declare DecodeRuneInString.simps(2) [simp del]
lemmas decode_Cons = DecodeRuneInString.simps(2)

lemma lead_Some:
  "lead b = Some (sz, lo, hi) \<Longrightarrow> (sz = 2 \<or> sz = 3 \<or> sz = 4) \<and> 0x80 \<le> lo \<and> hi \<le> 0xBF"
  by (simp add: lead_def split: if_splits)

lemma lead_cont: "b \<le> 0xBF \<Longrightarrow> lead b = None"
  by (simp add: lead_def)

lemma decode2_width:
  "snd (decode2 s0 lo hi cs) = 1 \<or> snd (decode2 s0 lo hi cs) = 2 \<and> 1 \<le> length cs"
  by (cases "(s0, lo, hi, cs)" rule: decode2.cases) auto

lemma decode3_width:
  "snd (decode3 s0 lo hi cs) = 1 \<or> snd (decode3 s0 lo hi cs) = 3 \<and> 2 \<le> length cs"
  by (cases "(s0, lo, hi, cs)" rule: decode3.cases) auto

lemma decode4_width:
  "snd (decode4 s0 lo hi cs) = 1 \<or> snd (decode4 s0 lo hi cs) = 4 \<and> 3 \<le> length cs"
  by (cases "(s0, lo, hi, cs)" rule: decode4.cases) auto

lemma width_bounds:
  "1 \<le> snd (DecodeRuneInString (c # cs)) \<and> snd (DecodeRuneInString (c # cs)) \<le> Suc (length cs)"
proof (cases "byte c < 0x80")
  case True
  then show ?thesis by (simp add: decode_Cons)
next
  case False
  show ?thesis
  proof (cases "lead (byte c)")
    case None
    with False show ?thesis by (simp add: decode_Cons)
  next
    case (Some x)
    obtain sz lo hi where x: "x = (sz, lo, hi)" by (cases x)
    show ?thesis
      using False Some x decode2_width [of "byte c" lo hi cs]
        decode3_width [of "byte c" lo hi cs] decode4_width [of "byte c" lo hi cs]
      by (cases "sz = 2"; cases "sz = 3") (auto simp: decode_Cons)
  qed
qed

lemma not_cont_out: "\<not> cont d \<Longrightarrow> 0x80 \<le> lo \<Longrightarrow> hi \<le> 0xBF \<Longrightarrow> byte d < lo \<or> hi < byte d"
  by (auto simp: cont_def)

lemma decode2_append:
  assumes "0x80 \<le> lo" "hi \<le> 0xBF" "b = [] \<or> \<not> cont (hd b)"
  shows "decode2 s0 lo hi (cs @ b) = decode2 s0 lo hi cs"
proof (cases cs)
  case Nil
  show ?thesis
  proof (cases b)
    case (Cons d ds)
    with assms have "byte d < lo \<or> hi < byte d" using not_cont_out [of d lo hi] by auto
    with Nil Cons show ?thesis by auto
  qed (simp add: Nil)
qed simp

lemma decode3_append:
  assumes "0x80 \<le> lo" "hi \<le> 0xBF" "b = [] \<or> \<not> cont (hd b)"
  shows "decode3 s0 lo hi (cs @ b) = decode3 s0 lo hi cs"
proof (cases b)
  case Nil
  then show ?thesis by simp
next
  case (Cons d ds)
  with assms have d: "\<not> cont d" "byte d < lo \<or> hi < byte d" using not_cont_out [of d lo hi] by auto
  show ?thesis
  proof (cases cs)
    case Nil
    with Cons d show ?thesis by (cases ds) auto
  next
    case c1: (Cons c1 cs1)
    show ?thesis
    proof (cases cs1)
      case Nil
      with c1 Cons d show ?thesis by auto
    next
      case (Cons c2 cs2)
      with c1 show ?thesis by simp
    qed
  qed
qed

lemma decode4_append:
  assumes "0x80 \<le> lo" "hi \<le> 0xBF" "b = [] \<or> \<not> cont (hd b)"
  shows "decode4 s0 lo hi (cs @ b) = decode4 s0 lo hi cs"
proof (cases b)
  case Nil
  then show ?thesis by simp
next
  case (Cons d ds)
  with assms have d: "\<not> cont d" "byte d < lo \<or> hi < byte d" using not_cont_out [of d lo hi] by auto
  show ?thesis
  proof (cases cs)
    case Nil
    with Cons d show ?thesis
      by (cases ds; cases "tl ds") auto
  next
    case c1: (Cons c1 cs1)
    show ?thesis
    proof (cases cs1)
      case Nil
      with c1 Cons d show ?thesis by (cases ds) auto
    next
      case c2: (Cons c2 cs2)
      show ?thesis
      proof (cases cs2)
        case Nil
        with c1 c2 Cons d show ?thesis by auto
      next
        case (Cons c3 cs3)
        with c1 c2 show ?thesis by simp
      qed
    qed
  qed
qed

lemma decode_append:
  assumes "b = [] \<or> \<not> cont (hd b)"
  shows "DecodeRuneInString ((c # cs) @ b) = DecodeRuneInString (c # cs)"
proof (cases "lead (byte c)")
  case None
  then show ?thesis by (simp add: decode_Cons)
next
  case (Some x)
  obtain sz lo hi where x: "x = (sz, lo, hi)" by (cases x)
  from Some x lead_Some have "0x80 \<le> lo" "hi \<le> 0xBF" by blast+
  with Some x assms show ?thesis
    by (simp add: decode_Cons decode2_append decode3_append decode4_append)
qed

lemma runes_Cons:
  "runes (c # cs) =
     (fst (DecodeRuneInString (c # cs)), take (snd (DecodeRuneInString (c # cs))) (c # cs))
     # runes (drop (snd (DecodeRuneInString (c # cs))) (c # cs))"
proof -
  obtain k where k: "snd (DecodeRuneInString (c # cs)) = Suc k"
    using width_bounds [of c cs] by (cases "snd (DecodeRuneInString (c # cs))") auto
  show ?thesis by (simp add: runes.simps Let_def k)
qed

lemma concat_runes: "concat (map snd (runes s)) = s"
proof (induction s rule: runes.induct)
  case 1
  show ?case by (simp add: runes.simps)
next
  case (2 c cs)
  then show ?case by (simp add: runes.simps Let_def)
qed

lemma runes_append:
  assumes "b = [] \<or> \<not> cont (hd b)"
  shows "runes (a @ b) = runes a @ runes b"
proof (induction a rule: runes.induct)
  case 1
  show ?case by (simp add: runes.simps)
next
  case (2 c cs)
  let ?n = "snd (DecodeRuneInString (c # cs))"
  have le: "?n - 1 \<le> length cs" using width_bounds [of c cs] by arith
  have d: "DecodeRuneInString (c # cs @ b) = DecodeRuneInString (c # cs)"
    using decode_append [OF assms, of c cs] by simp
  have "runes (drop (?n - 1) cs @ b) = runes (drop (?n - 1) cs) @ runes b"
    using 2 by simp
  with le d show ?case by (simp add: runes.simps Let_def)
qed

lemma runes_nonempty: "t \<in> set (runes s) \<Longrightarrow> snd t \<noteq> []"
  by (induction s rule: runes.induct) (auto simp: runes.simps Let_def)

lemma IsSpace_RuneError: "\<not> IsSpace RuneError"
  by (simp add: IsSpace_def RuneError_def)

lemma cont_first_RuneError: "cont c \<Longrightarrow> fst (DecodeRuneInString (c # cs)) = RuneError"
  by (simp add: decode_Cons cont_def lead_cont)

lemma space_rune_start: "t \<in> set (runes s) \<Longrightarrow> space_rune t \<Longrightarrow> \<not> cont (hd (snd t))"
proof (induction s rule: runes.induct)
  case 1
  then show ?case by (simp add: runes.simps)
next
  case (2 c cs)
  then show ?case
    using cont_first_RuneError [of c cs] IsSpace_RuneError
    by (auto simp: runes.simps Let_def)
qed

section \<open>Trimming\<close>

text \<open>
  The runes of a suffix of the string that starts at a rune, and of a prefix that ends
  before a white-space rune, are the runes of the string at these places; so the runes
  of the trimmed string are the runes of the string without the white space at both
  ends.
\<close>

lemma runes_Nil [simp]: "runes [] = []"
  by (simp add: runes.simps)

lemma runes_eq_Nil [simp]: "runes s = [] \<longleftrightarrow> s = []"
  by (cases s) (simp_all add: runes_Cons)

lemma runes_suffix: "runes (concat (map snd (drop k (runes s)))) = drop k (runes s)"
proof (induction s arbitrary: k rule: runes.induct)
  case 1
  show ?case by simp
next
  case (2 c cs)
  show ?case
  proof (cases k)
    case 0
    then show ?thesis by (simp add: concat_runes)
  next
    case (Suc j)
    then show ?thesis using 2 [OF refl, of j] by (simp add: runes.simps Let_def)
  qed
qed

lemma hd_concat_tokens:
  assumes "B \<noteq> []" "\<forall>t \<in> set B. snd t \<noteq> []"
  shows "hd (concat (map snd B)) = hd (snd (hd B))"
  using assms by (cases B) auto

lemma runes_prefix:
  assumes "runes s = A @ B" "B = [] \<or> \<not> cont (hd (snd (hd B)))"
  shows "runes (concat (map snd A)) = A"
proof -
  let ?a = "concat (map snd A)" and ?b = "concat (map snd B)"
  have s: "s = ?a @ ?b" using concat_runes [of s] assms(1) by simp
  have B: "runes ?b = B" using runes_suffix [of "length A" s] assms(1) by simp
  have "?b = [] \<or> \<not> cont (hd ?b)"
  proof (cases "B = []")
    case True
    then show ?thesis by simp
  next
    case False
    have "\<forall>t \<in> set B. snd t \<noteq> []"
      using runes_nonempty [of _ s] assms(1) by auto
    with False assms(2) show ?thesis by (simp add: hd_concat_tokens)
  qed
  then have "runes (?a @ ?b) = runes ?a @ runes ?b" by (rule runes_append)
  with s B assms(1) show ?thesis by simp
qed

lemma runes_TrimLeft: "runes (TrimLeft s) = dropWhile space_rune (runes s)"
  using runes_suffix [of "length (takeWhile space_rune (runes s))" s]
  by (simp add: TrimLeft_def dropWhile_eq_drop)

lemma split_trailing:
  "T = rev (dropWhile P (rev T)) @ rev (takeWhile P (rev T))"
proof -
  have "rev (dropWhile P (rev T)) @ rev (takeWhile P (rev T))
        = rev (takeWhile P (rev T) @ dropWhile P (rev T))"
    by (simp only: rev_append)
  also have "\<dots> = rev (rev T)" by (simp only: takeWhile_dropWhile_id)
  finally show ?thesis by simp
qed

lemma runes_TrimRight: "runes (TrimRight s) = rev (dropWhile space_rune (rev (runes s)))"
proof -
  let ?A = "rev (dropWhile space_rune (rev (runes s)))"
  let ?B = "rev (takeWhile space_rune (rev (runes s)))"
  have AB: "runes s = ?A @ ?B" by (rule split_trailing)
  have "?B = [] \<or> \<not> cont (hd (snd (hd ?B)))"
  proof (cases "?B = []")
    case False
    then have "hd ?B \<in> set ?B" by (rule hd_in_set)
    then have in_T: "hd ?B \<in> set (runes s)" and sp: "space_rune (hd ?B)"
      by (auto dest: set_takeWhileD)
    then show ?thesis by (simp add: space_rune_start)
  qed simp
  with AB have "runes (concat (map snd ?A)) = ?A" by (rule runes_prefix)
  then show ?thesis by (simp add: TrimRight_def)
qed

lemma runes_TrimSpace:
  "runes (TrimSpace s) = rev (dropWhile space_rune (rev (dropWhile space_rune (runes s))))"
  by (simp add: TrimSpace_def runes_TrimRight runes_TrimLeft)

lemma TrimSpace_bytes:
  "TrimSpace s = concat (map snd (rev (dropWhile space_rune (rev (dropWhile space_rune (runes s))))))"
  using concat_runes [of "TrimSpace s"] by (simp add: runes_TrimSpace)

text \<open>The string is its leading white space, the trimmed string and its trailing white space.\<close>

lemma TrimSpace_split:
  "s = concat (map snd (takeWhile space_rune (runes s))) @ TrimSpace s
       @ concat (map snd (rev (takeWhile space_rune (rev (dropWhile space_rune (runes s))))))"
proof -
  let ?L = "takeWhile space_rune (runes s)" and ?D = "dropWhile space_rune (runes s)"
  have "runes s = ?L @ ?D" by simp
  also have "?D = rev (dropWhile space_rune (rev ?D)) @ rev (takeWhile space_rune (rev ?D))"
    by (rule split_trailing)
  finally have "concat (map snd (runes s)) =
      concat (map snd (?L @ rev (dropWhile space_rune (rev ?D)) @ rev (takeWhile space_rune (rev ?D))))"
    by simp
  then show ?thesis by (simp add: concat_runes TrimSpace_bytes)
qed

lemma TrimSpace_fixed:
  assumes "s = [] \<or> \<not> space_rune (hd (runes s)) \<and> \<not> space_rune (last (runes s))"
  shows "TrimSpace s = s"
proof (cases "s = []")
  case True
  then show ?thesis by (simp add: TrimSpace_bytes)
next
  case False
  then have ne: "runes s \<noteq> []" by simp
  with assms False have l: "dropWhile space_rune (runes s) = runes s"
    by (cases "runes s") auto
  from ne assms False have "dropWhile space_rune (rev (runes s)) = rev (runes s)"
    by (cases "rev (runes s)") (auto simp: hd_rev)
  with l show ?thesis by (simp add: TrimSpace_bytes concat_runes)
qed

lemma tokens_length_pos:
  assumes "B \<noteq> []" "set B \<subseteq> set (runes s)"
  shows "0 < length (concat (map snd B))"
  using assms runes_nonempty [of "hd B" s] by (cases B) auto

lemma TrimSpace_shorter:
  assumes "s \<noteq> []" "space_rune (hd (runes s)) \<or> space_rune (last (runes s))"
  shows "length (TrimSpace s) < length s"
proof -
  let ?L = "takeWhile space_rune (runes s)" and ?D = "dropWhile space_rune (runes s)"
  let ?R = "rev (takeWhile space_rune (rev ?D))"
  have len: "length s = length (concat (map snd ?L)) + length (TrimSpace s) + length (concat (map snd ?R))"
    using arg_cong [OF TrimSpace_split [of s], of length] by simp
  from assms(1) have ne: "runes s \<noteq> []" by simp
  show ?thesis
  proof (cases "space_rune (hd (runes s))")
    case True
    with ne have "?L \<noteq> []" by (cases "runes s") auto
    moreover have "set ?L \<subseteq> set (runes s)" by (auto dest: set_takeWhileD)
    ultimately have "0 < length (concat (map snd ?L))" by (rule tokens_length_pos)
    with len show ?thesis by arith
  next
    case False
    with ne have D: "?D = runes s" by (cases "runes s") auto
    from False assms(2) have "space_rune (last (runes s))" by simp
    with ne D have "?R \<noteq> []" by (cases "rev (runes s)") (auto simp: last_rev hd_rev)
    moreover have "set ?R \<subseteq> set (runes s)" using D by (auto dest: set_takeWhileD)
    ultimately have "0 < length (concat (map snd ?R))" by (rule tokens_length_pos)
    with len show ?thesis by arith
  qed
qed

lemma decode_ascii: "byte c < 0x80 \<Longrightarrow> DecodeRuneInString (c # cs) = (byte c, 1)"
  by (simp add: decode_Cons)

lemma runes_ascii_Cons: "byte c < 0x80 \<Longrightarrow> runes (c # cs) = (byte c, [c]) # runes cs"
  by (simp add: runes_Cons decode_ascii)

lemma runes_ascii: "\<forall>c \<in> set s. byte c < 0x80 \<Longrightarrow> runes s = map (\<lambda>c. (byte c, [c])) s"
  by (induction s) (simp_all add: runes_ascii_Cons)

lemma TrimSpace_ascii:
  assumes "\<forall>c \<in> set s. byte c < 0x80"
  shows "TrimSpace s = rev (dropWhile (\<lambda>c. IsSpace (byte c)) (rev (dropWhile (\<lambda>c. IsSpace (byte c)) s)))"
proof -
  let ?f = "\<lambda>c. (byte c, [c])" and ?sp = "\<lambda>c. IsSpace (byte c)"
  have comp: "space_rune \<circ> ?f = ?sp" by (simp add: fun_eq_iff)
  have id: "concat (map snd (map ?f xs)) = xs" for xs :: string by (induction xs) simp_all
  have "TrimSpace s = concat (map snd (rev (dropWhile space_rune (rev (dropWhile space_rune (map ?f s))))))"
    by (simp add: TrimSpace_bytes runes_ascii [OF assms])
  also have "\<dots> = concat (map snd (map ?f (rev (dropWhile ?sp (rev (dropWhile ?sp s))))))"
    by (simp only: dropWhile_map rev_map comp)
  finally show ?thesis by (simp only: id)
qed

section \<open>Fields\<close>

lemma fields_loop_nospace:
  "\<forall>t \<in> set A. \<not> space_rune t \<Longrightarrow>
   fields_loop (A @ rest) cur = fields_loop rest (cur @ concat (map snd A))"
  by (induction A arbitrary: cur) simp_all

lemma fields_loop_nonspace:
  assumes "runes (concat (map snd (C @ T))) = C @ T" "\<forall>t \<in> set C. \<not> space_rune t"
  shows "\<forall>f \<in> set (fields_loop T (concat (map snd C))). nonspace f"
  using assms
proof (induction T arbitrary: C)
  case Nil
  then show ?case by (simp add: nonspace_def)
next
  case (Cons t ts)
  let ?s = "concat (map snd (C @ t # ts))"
  have rs: "runes ?s = C @ t # ts" by (rule Cons.prems(1))
  show ?case
  proof (cases "space_rune t")
    case True
    have "t \<in> set (C @ t # ts)" by simp
    then have "t \<in> set (runes ?s)" by (simp only: rs)
    from this True have "\<not> cont (hd (snd t))" by (rule space_rune_start)
    then have "t # ts = [] \<or> \<not> cont (hd (snd (hd (t # ts))))" by simp
    with rs have C: "runes (concat (map snd C)) = C" by (rule runes_prefix)
    have "runes (concat (map snd (drop (Suc (length C)) (C @ t # ts))))
          = drop (Suc (length C)) (C @ t # ts)"
      using runes_suffix [of "Suc (length C)" ?s] unfolding rs .
    then have "\<forall>f \<in> set (fields_loop ts (concat (map snd []))). nonspace f"
      using Cons.IH [of "[]"] by simp
    with True C Cons.prems(2) show ?thesis by (simp add: nonspace_def)
  next
    case False
    have "runes (concat (map snd ((C @ [t]) @ ts))) = (C @ [t]) @ ts" using rs by simp
    moreover have "\<forall>u \<in> set (C @ [t]). \<not> space_rune u" using False Cons.prems(2) by simp
    ultimately have "\<forall>f \<in> set (fields_loop ts (concat (map snd (C @ [t])))). nonspace f"
      using Cons.IH [of "C @ [t]"] by blast
    with False show ?thesis by simp
  qed
qed

lemma Fields_nonspace: "\<forall>f \<in> set (Fields s). nonspace f"
  using fields_loop_nonspace [of "[]" "runes s"] by (simp add: Fields_def concat_runes)

lemma Fields_single: "nonspace x \<Longrightarrow> Fields x = [x]"
  using fields_loop_nospace [of "runes x" "[]" "[]"]
  by (simp add: Fields_def nonspace_def concat_runes)

lemma not_cont_space: "\<not> cont CHR '' ''"
  by (simp add: cont_def)

lemma runes_space_sep: "runes (x @ CHR '' '' # r) = runes x @ (0x20, '' '') # runes r"
proof -
  have "runes (x @ CHR '' '' # r) = runes x @ runes (CHR '' '' # r)"
    by (rule runes_append) (simp add: not_cont_space)
  then show ?thesis by (simp add: runes_ascii_Cons)
qed

lemma Fields_sep:
  assumes "nonspace x"
  shows "Fields (x @ CHR '' '' # r) = x # Fields r"
proof -
  have "fields_loop (runes x @ (0x20, '' '') # runes r) [] =
        fields_loop ((0x20, '' '') # runes r) ([] @ concat (map snd (runes x)))"
    using assms by (intro fields_loop_nospace) (simp add: nonspace_def)
  with assms show ?thesis
    by (simp add: Fields_def runes_space_sep concat_runes nonspace_def IsSpace_def)
qed

lemma Fields_Join: "\<forall>f \<in> set fs. nonspace f \<Longrightarrow> Fields (Join fs '' '') = fs"
proof (induction fs rule: induct_list012)
  case 1
  show ?case by (simp add: Fields_def)
next
  case (2 x)
  then show ?case by (simp add: Fields_single)
next
  case (3 x y zs)
  then show ?case by (simp add: Fields_sep)
qed

lemma collapse_idem: "Join (Fields (Join (Fields s) '' '')) '' '' = Join (Fields s) '' ''"
  by (simp add: Fields_Join Fields_nonspace)

lemma Join_ends:
  "fs \<noteq> [] \<Longrightarrow> \<forall>f \<in> set fs. nonspace f \<Longrightarrow>
   Join fs '' '' \<noteq> [] \<and> \<not> space_rune (hd (runes (Join fs '' '')))
   \<and> \<not> space_rune (last (runes (Join fs '' '')))"
proof (induction fs rule: induct_list012)
  case 1
  then show ?case by simp
next
  case (2 x)
  then have "x \<noteq> []" "\<forall>t \<in> set (runes x). \<not> space_rune t" by (simp_all add: nonspace_def)
  then show ?case by simp
next
  case (3 x y zs)
  then have x: "runes x \<noteq> []" "\<forall>t \<in> set (runes x). \<not> space_rune t"
    by (simp_all add: nonspace_def)
  from 3 have r: "runes (Join (y # zs) '' '') \<noteq> []"
    "\<not> space_rune (last (runes (Join (y # zs) '' '')))" by simp_all
  from x r show ?case by (simp add: runes_space_sep)
qed

lemma TrimSpace_Join:
  "\<forall>f \<in> set fs. nonspace f \<Longrightarrow> TrimSpace (Join fs '' '') = Join fs '' ''"
  by (cases "fs = []") (simp_all add: TrimSpace_fixed Join_ends)

section \<open>Runes and bytes\<close>

text \<open>
  The decoder accepts no overlong sequence: a rune decoded from a byte that is not
  ASCII is not an ASCII rune.
\<close>

lemma mod_range: "q * k \<le> (x::nat) \<Longrightarrow> x < q * k + k \<Longrightarrow> x mod k = x - q * k"
proof -
  assume a: "q * k \<le> x" "x < q * k + k"
  then have "x = (x - q * k) + q * k" by simp
  then have "x mod k = ((x - q * k) + q * k) mod k" by simp
  also have "\<dots> = (x - q * k) mod k" by (simp only: mod_mult_self1)
  also have "\<dots> = x - q * k" using a by (intro mod_less) arith
  finally show ?thesis .
qed

lemma mod64_hi: "160 \<le> (x::nat) \<Longrightarrow> x \<le> 191 \<Longrightarrow> 32 \<le> x mod 64"
  using mod_range [of 2 64 x] by simp
lemma mod64_mid: "144 \<le> (x::nat) \<Longrightarrow> x \<le> 191 \<Longrightarrow> 16 \<le> x mod 64"
  using mod_range [of 2 64 x] by simp
lemma m32: "194 \<le> (b::nat) \<Longrightarrow> b < 224 \<Longrightarrow> 2 \<le> b mod 32"
  using mod_range [of 6 32 b] by simp
lemma m16: "224 < (b::nat) \<Longrightarrow> b < 240 \<Longrightarrow> 0 < b mod 16"
  using mod_range [of 14 16 b] by simp
lemma m8: "240 < (b::nat) \<Longrightarrow> b \<le> 244 \<Longrightarrow> 0 < b mod 8"
  using mod_range [of 30 8 b] by simp

lemma lead_range:
  "lead b = Some (sz, lo, hi) \<Longrightarrow>
     (sz = 2 \<and> 2 \<le> b mod 32) \<or> (sz = 3 \<and> (0 < b mod 16 \<or> 0xA0 \<le> lo))
     \<or> (sz = 4 \<and> (0 < b mod 8 \<or> 0x90 \<le> lo))"
proof -
  assume l: "lead b = Some (sz, lo, hi)"
  then consider "194 \<le> b" "b < 224" "sz = 2" | "b = 224" "sz = 3" "lo = 0xA0"
    | "224 < b" "b < 240" "sz = 3" | "b = 240" "sz = 4" "lo = 0x90"
    | "240 < b" "b \<le> 244" "sz = 4"
    by (auto simp: lead_def split: if_splits)
  then show ?thesis
    by cases (simp_all add: m32 m16 m8)
qed

lemma lin2: "2 \<le> a \<Longrightarrow> 128 \<le> a * 64 + (b::nat)"
  by arith

lemma lin3: "0 < a \<or> 32 \<le> b \<Longrightarrow> 128 \<le> a * 4096 + b * 64 + (c::nat)"
  by arith

lemma lin4: "0 < a \<or> 16 \<le> b \<Longrightarrow> 128 \<le> a * 262144 + b * 4096 + c * 64 + (d::nat)"
  by arith

lemma decode2_value:
  "2 \<le> s0 mod 32 \<Longrightarrow> 0x80 \<le> fst (decode2 s0 lo hi cs)"
  by (cases "(s0, lo, hi, cs)" rule: decode2.cases) (simp_all add: RuneError_def lin2)

lemma decode3_value:
  assumes "0 < s0 mod 16 \<or> 0xA0 \<le> lo" "hi \<le> 0xBF"
  shows "0x80 \<le> fst (decode3 s0 lo hi cs)"
proof (cases "(s0, lo, hi, cs)" rule: decode3.cases)
  case (1 s0' lo' hi' c1 c2 cs')
  show ?thesis
  proof (cases "byte c1 < lo \<or> hi < byte c1 \<or> \<not> cont c2")
    case True
    with 1 show ?thesis by (auto simp: RuneError_def)
  next
    case False
    then have r: "lo \<le> byte c1" "byte c1 \<le> hi" by simp_all
    have "0 < s0 mod 16 \<or> 32 \<le> byte c1 mod 64"
    proof (cases "0 < s0 mod 16")
      case False
      with assms r have "160 \<le> byte c1" "byte c1 \<le> 191" by simp_all
      then show ?thesis by (simp add: mod64_hi)
    qed simp
    then have "128 \<le> (s0 mod 16) * 4096 + (byte c1 mod 64) * 64 + byte c2 mod 64"
      by (rule lin3)
    with 1 False show ?thesis by simp
  qed
qed (simp_all add: RuneError_def)

lemma decode4_value:
  assumes "0 < s0 mod 8 \<or> 0x90 \<le> lo" "hi \<le> 0xBF"
  shows "0x80 \<le> fst (decode4 s0 lo hi cs)"
proof (cases "(s0, lo, hi, cs)" rule: decode4.cases)
  case (1 s0' lo' hi' c1 c2 c3 cs')
  show ?thesis
  proof (cases "byte c1 < lo \<or> hi < byte c1 \<or> \<not> cont c2 \<or> \<not> cont c3")
    case True
    with 1 show ?thesis by (auto simp: RuneError_def)
  next
    case False
    then have r: "lo \<le> byte c1" "byte c1 \<le> hi" by simp_all
    have "0 < s0 mod 8 \<or> 16 \<le> byte c1 mod 64"
    proof (cases "0 < s0 mod 8")
      case False
      with assms r have "144 \<le> byte c1" "byte c1 \<le> 191" by simp_all
      then show ?thesis by (simp add: mod64_mid)
    qed simp
    then have "128 \<le> (s0 mod 8) * 262144 + (byte c1 mod 64) * 4096 + (byte c2 mod 64) * 64
                 + byte c3 mod 64"
      by (rule lin4)
    with 1 False show ?thesis by simp
  qed
qed (simp_all add: RuneError_def)

lemma byte_less: "byte c < 256"
  by simp

lemma decode_value:
  assumes "\<not> byte c < 0x80"
  shows "0x80 \<le> fst (DecodeRuneInString (c # cs))"
proof (cases "lead (byte c)")
  case None
  with assms show ?thesis by (simp add: decode_Cons RuneError_def)
next
  case (Some x)
  obtain sz lo hi where x: "x = (sz, lo, hi)" by (cases x)
  from Some x have l: "lead (byte c) = Some (sz, lo, hi)" by simp
  from lead_Some [OF l] have hi: "hi \<le> 0xBF" by simp
  from lead_range [OF l] consider
      "sz = 2" "2 \<le> byte c mod 32"
    | "sz = 3" "0 < byte c mod 16 \<or> 0xA0 \<le> lo"
    | "sz = 4" "0 < byte c mod 8 \<or> 0x90 \<le> lo"
    by blast
  then show ?thesis
  proof cases
    case 1
    with assms l show ?thesis by (simp add: decode_Cons decode2_value)
  next
    case 2
    with assms l hi show ?thesis by (simp add: decode_Cons decode3_value)
  next
    case 3
    with assms l hi show ?thesis by (simp add: decode_Cons decode4_value)
  qed
qed

lemma decode2_tail:
  "0x80 \<le> lo \<Longrightarrow> \<forall>d \<in> set (take (snd (decode2 s0 lo hi cs) - 1) cs). 0x80 \<le> byte d"
  by (cases "(s0, lo, hi, cs)" rule: decode2.cases) auto

lemma decode3_tail:
  "0x80 \<le> lo \<Longrightarrow> \<forall>d \<in> set (take (snd (decode3 s0 lo hi cs) - 1) cs). 0x80 \<le> byte d"
  by (cases "(s0, lo, hi, cs)" rule: decode3.cases) (auto simp: cont_def)

lemma decode4_tail:
  "0x80 \<le> lo \<Longrightarrow> \<forall>d \<in> set (take (snd (decode4 s0 lo hi cs) - 1) cs). 0x80 \<le> byte d"
  by (cases "(s0, lo, hi, cs)" rule: decode4.cases) (auto simp: cont_def)

lemma decode_tail:
  "\<forall>d \<in> set (take (snd (DecodeRuneInString (c # cs)) - 1) cs). 0x80 \<le> byte d"
proof (cases "lead (byte c)")
  case None
  then show ?thesis by (simp add: decode_Cons)
next
  case (Some x)
  obtain sz lo hi where x: "x = (sz, lo, hi)" by (cases x)
  from Some x have l: "lead (byte c) = Some (sz, lo, hi)" by simp
  from lead_Some [OF l] have lo: "0x80 \<le> lo" by simp
  show ?thesis
    using l decode2_tail [OF lo, of "byte c" hi cs] decode3_tail [OF lo, of "byte c" hi cs]
      decode4_tail [OF lo, of "byte c" hi cs]
    by (simp add: decode_Cons)
qed

text \<open>A rune of the string is an ASCII byte, or it is not ASCII and none of its bytes is.\<close>

lemma token_shape:
  "t \<in> set (runes s) \<Longrightarrow>
     (\<exists>c. t = (byte c, [c]) \<and> byte c < 0x80)
     \<or> (0x80 \<le> fst t \<and> (\<forall>d \<in> set (snd t). 0x80 \<le> byte d))"
proof (induction s rule: runes.induct)
  case 1
  then show ?case by simp
next
  case (2 c cs)
  let ?n = "snd (DecodeRuneInString (c # cs))"
  from 2 consider "t = (fst (DecodeRuneInString (c # cs)), c # take (?n - 1) cs)"
    | "t \<in> set (runes (drop (?n - 1) cs))"
    by (auto simp: runes.simps Let_def)
  then show ?case
  proof cases
    case 1
    show ?thesis
    proof (cases "byte c < 0x80")
      case True
      with 1 show ?thesis by (simp add: decode_ascii)
    next
      case False
      with 1 decode_value [OF False, of cs] decode_tail [of c cs] show ?thesis by auto
    qed
  next
    case 2
    with "2.IH" show ?thesis by simp
  qed
qed

lemma ascii_runes_bytes:
  assumes "\<forall>t \<in> set (runes s). fst t < 0x80"
  shows "\<forall>c \<in> set s. byte c < 0x80"
proof -
  have "\<forall>t \<in> set (runes s). \<forall>c \<in> set (snd t). byte c < 0x80"
    using assms token_shape [of _ s] by fastforce
  then have "\<forall>c \<in> set (concat (map snd (runes s))). byte c < 0x80" by auto
  then show ?thesis by (simp add: concat_runes)
qed

section \<open>Encoding and decoding\<close>

text \<open>Decoding the encoding of a valid rune gives the rune back, with its width.\<close>

lemma byte_char_of: "n < 256 \<Longrightarrow> byte (char_of n) = n"
  by simp

lemma tail_mod: "m < 64 \<Longrightarrow> (0x80 + m) mod 64 = (m::nat)"
  using mod_range [of 2 64 "0x80 + m"] by simp

lemma decode_encode1:
  assumes "r \<le> 0x7F"
  shows "DecodeRuneInString (EncodeRune r @ rest) = (r, length (EncodeRune r))"
proof -
  have "byte (char_of r) = r" using assms by (intro byte_char_of) arith
  with assms show ?thesis by (simp add: EncodeRune_def decode_ascii)
qed

lemma decode_encode2:
  assumes "0x7F < r" "r \<le> 0x7FF"
  shows "DecodeRuneInString (EncodeRune r @ rest) = (r, length (EncodeRune r))"
proof -
  define q m where "q = r div 64" and "m = r mod 64"
  define c0 c1 :: char where "c0 = char_of (0xC0 + q)" and "c1 = char_of (0x80 + m)"
  have r: "r = q * 64 + m" and m: "m < 64" by (simp_all add: q_def m_def)
  from r m assms have q: "2 \<le> q" "q \<le> 31" by arith+
  have enc: "EncodeRune r = [c0, c1]"
    using assms by (simp add: EncodeRune_def q_def m_def c0_def c1_def)
  have b0: "byte c0 = 0xC0 + q" unfolding c0_def using q by (intro byte_char_of) arith
  have b1: "byte c1 = 0x80 + m" unfolding c1_def using m by (intro byte_char_of) arith
  have l: "lead (0xC0 + q) = Some (2, 0x80, 0xBF)" using q by (simp add: lead_def)
  have "(0xC0 + q) mod 32 = (0xC0 + q) - 6 * 32" using q by (intro mod_range) simp_all
  then have q32: "(0xC0 + q) mod 32 = q" by simp
  have "decode2 (0xC0 + q) 0x80 0xBF (c1 # rest) = (r, 2)"
    using m by (simp add: b1 q32 tail_mod r)
  then show ?thesis
    unfolding enc by (simp add: decode_Cons b0 l)
qed

lemma decode_encode3:
  assumes "0x7FF < r" "r \<le> 0xFFFF" "ValidRune r"
  shows "DecodeRuneInString (EncodeRune r @ rest) = (r, length (EncodeRune r))"
proof -
  define q m n where "q = r div 4096" and "m = (r div 64) mod 64" and "n = r mod 64"
  define c0 c1 c2 :: char where "c0 = char_of (0xE0 + q)" and "c1 = char_of (0x80 + m)"
    and "c2 = char_of (0x80 + n)"
  have "r div 64 = (r div 64 div 64) * 64 + m" by (simp add: m_def)
  moreover have "r div 64 div 64 = q" by (simp add: q_def div_mult2_eq [symmetric])
  moreover have "r = (r div 64) * 64 + n" by (simp add: n_def)
  ultimately have r: "r = q * 4096 + m * 64 + n" by simp
  have m: "m < 64" and n: "n < 64" by (simp_all add: m_def n_def)
  from r m n assms have q: "q \<le> 15" by arith
  from r m n assms have q0: "q = 0 \<longrightarrow> 32 \<le> m" by arith
  from r m n assms have q13: "q = 13 \<longrightarrow> m \<le> 31" unfolding ValidRune_def by arith
  have enc: "EncodeRune r = [c0, c1, c2]"
    using assms
    by (auto simp: EncodeRune_def ValidRune_def q_def m_def n_def c0_def c1_def c2_def)
  have b0: "byte c0 = 0xE0 + q" unfolding c0_def using q by (intro byte_char_of) arith
  have b1: "byte c1 = 0x80 + m" unfolding c1_def using m by (intro byte_char_of) arith
  have b2: "byte c2 = 0x80 + n" unfolding c2_def using n by (intro byte_char_of) arith
  have "(0xE0 + q) mod 16 = (0xE0 + q) - 14 * 16" using q by (intro mod_range) simp_all
  then have q16: "(0xE0 + q) mod 16 = q" by simp
  obtain lo hi where l: "lead (0xE0 + q) = Some (3, lo, hi)" "lo \<le> 0x80 + m" "0x80 + m \<le> hi"
  proof (cases "q = 0")
    case True
    with q0 m have "lead (0xE0 + q) = Some (3, 0xA0, 0xBF)" "0xA0 \<le> 0x80 + m" "0x80 + m \<le> 0xBF"
      by (simp_all add: lead_def)
    then show ?thesis by (rule that)
  next
    case False
    show ?thesis
    proof (cases "q = 13")
      case True
      with q13 have "lead (0xE0 + q) = Some (3, 0x80, 0x9F)" "0x80 \<le> 0x80 + m" "0x80 + m \<le> 0x9F"
        by (simp_all add: lead_def)
      then show ?thesis by (rule that)
    next
      case F: False
      with False q m have "lead (0xE0 + q) = Some (3, 0x80, 0xBF)" "0x80 \<le> 0x80 + m"
        "0x80 + m \<le> 0xBF"
        by (simp_all add: lead_def)
      then show ?thesis by (rule that)
    qed
  qed
  have "decode3 (0xE0 + q) lo hi (c1 # c2 # rest) = (r, 3)"
    using l(2,3) m n by (simp add: b1 b2 cont_def q16 tail_mod r)
  then show ?thesis
    unfolding enc by (simp add: decode_Cons b0 l(1))
qed

lemma decode_encode4:
  assumes "0xFFFF < r" "r \<le> 0x10FFFF"
  shows "DecodeRuneInString (EncodeRune r @ rest) = (r, length (EncodeRune r))"
proof -
  define q m n k where "q = r div 262144" and "m = (r div 4096) mod 64"
    and "n = (r div 64) mod 64" and "k = r mod 64"
  define c0 c1 c2 c3 :: char where "c0 = char_of (0xF0 + q)" and "c1 = char_of (0x80 + m)"
    and "c2 = char_of (0x80 + n)" and "c3 = char_of (0x80 + k)"
  have "r div 64 = (r div 64 div 64) * 64 + n" by (simp add: n_def)
  moreover have "r div 64 div 64 = r div 4096" by (simp add: div_mult2_eq [symmetric])
  moreover have "r div 4096 = (r div 4096 div 64) * 64 + m" by (simp add: m_def)
  moreover have "r div 4096 div 64 = q" by (simp add: q_def div_mult2_eq [symmetric])
  moreover have "r = (r div 64) * 64 + k" by (simp add: k_def)
  ultimately have r: "r = q * 262144 + m * 4096 + n * 64 + k" by simp
  have m: "m < 64" and n: "n < 64" and k: "k < 64" by (simp_all add: m_def n_def k_def)
  from r m n k assms have q: "q \<le> 4" by arith
  from r m n k assms have q0: "q = 0 \<longrightarrow> 16 \<le> m" by arith
  from r m n k assms have q4: "q = 4 \<longrightarrow> m \<le> 15" by arith
  have enc: "EncodeRune r = [c0, c1, c2, c3]"
    using assms
    by (simp add: EncodeRune_def q_def m_def n_def k_def c0_def c1_def c2_def c3_def)
  have b0: "byte c0 = 0xF0 + q" unfolding c0_def using q by (intro byte_char_of) arith
  have b1: "byte c1 = 0x80 + m" unfolding c1_def using m by (intro byte_char_of) arith
  have b2: "byte c2 = 0x80 + n" unfolding c2_def using n by (intro byte_char_of) arith
  have b3: "byte c3 = 0x80 + k" unfolding c3_def using k by (intro byte_char_of) arith
  have "(0xF0 + q) mod 8 = (0xF0 + q) - 30 * 8" using q by (intro mod_range) simp_all
  then have q8: "(0xF0 + q) mod 8 = q" by simp
  obtain lo hi where l: "lead (0xF0 + q) = Some (4, lo, hi)" "lo \<le> 0x80 + m" "0x80 + m \<le> hi"
  proof (cases "q = 0")
    case True
    with q0 m have "lead (0xF0 + q) = Some (4, 0x90, 0xBF)" "0x90 \<le> 0x80 + m" "0x80 + m \<le> 0xBF"
      by (simp_all add: lead_def)
    then show ?thesis by (rule that)
  next
    case False
    show ?thesis
    proof (cases "q = 4")
      case True
      with q4 have "lead (0xF0 + q) = Some (4, 0x80, 0x8F)" "0x80 \<le> 0x80 + m" "0x80 + m \<le> 0x8F"
        by (simp_all add: lead_def)
      then show ?thesis by (rule that)
    next
      case F: False
      with False q m have "lead (0xF0 + q) = Some (4, 0x80, 0xBF)" "0x80 \<le> 0x80 + m"
        "0x80 + m \<le> 0xBF"
        by (simp_all add: lead_def)
      then show ?thesis by (rule that)
    qed
  qed
  have "decode4 (0xF0 + q) lo hi (c1 # c2 # c3 # rest) = (r, 4)"
    using l(2,3) m n k by (simp add: b1 b2 b3 cont_def q8 tail_mod r)
  then show ?thesis
    unfolding enc by (simp add: decode_Cons b0 l(1))
qed

lemma decode_encode:
  assumes "ValidRune r"
  shows "DecodeRuneInString (EncodeRune r @ rest) = (r, length (EncodeRune r))"
proof -
  from assms have "r \<le> 0x10FFFF" by (auto simp: ValidRune_def)
  then consider "r \<le> 0x7F" | "0x7F < r" "r \<le> 0x7FF" | "0x7FF < r" "r \<le> 0xFFFF"
    | "0xFFFF < r" "r \<le> 0x10FFFF" by arith
  then show ?thesis
    using assms by cases (simp_all only: decode_encode1 decode_encode2 decode_encode3 decode_encode4)
qed

lemma EncodeRune_nonempty: "EncodeRune r \<noteq> []"
  by (simp add: EncodeRune_def)

lemma runes_encode:
  assumes "ValidRune r"
  shows "runes (EncodeRune r @ rest) = (r, EncodeRune r) # runes rest"
proof -
  obtain c cs where e: "EncodeRune r = c # cs" using EncodeRune_nonempty [of r] by (cases "EncodeRune r") auto
  have "DecodeRuneInString (c # cs @ rest) = (r, length (c # cs))"
    using decode_encode [OF assms, of rest] by (simp add: e)
  then show ?thesis by (simp add: e runes_Cons)
qed

lemma runes_string_of_runes:
  "\<forall>r \<in> set rs. ValidRune r \<Longrightarrow> runes (string_of_runes rs) = map (\<lambda>r. (r, EncodeRune r)) rs"
  by (induction rs) (simp_all add: string_of_runes_def runes_encode)

lemma RuneCount_string_of_runes:
  "\<forall>r \<in> set rs. ValidRune r \<Longrightarrow> RuneCountInString (string_of_runes rs) = length rs"
  by (simp add: RuneCountInString_def runes_string_of_runes)

lemma length_string_of_runes:
  "\<forall>r \<in> set rs. 0x80 \<le> r \<Longrightarrow> 2 * length rs \<le> length (string_of_runes rs)"
proof (induction rs)
  case Nil
  show ?case by (simp add: string_of_runes_def)
next
  case (Cons r rs)
  then have "2 \<le> length (EncodeRune r)" by (simp add: EncodeRune_def)
  with Cons show ?case by (simp add: string_of_runes_def)
qed

section \<open>Properties\<close>

subsection \<open>File names\<close>

text \<open>
  C1. The specification: a name at which no file-system entry exists is accepted, trimmed, and
  \<open>InvalidFileName\<close> is returned only when the path exists or the check fails. The code
  tests \<open>err == nil && os.IsNotExist(err)\<close>, which no error value satisfies, so every
  name is rejected, whatever the file system holds: in particular the name
  \<open>new.txt\<close> on a file system with no entry at all.
\<close>

theorem ValidateFileName_rejects_every_name:
  "ValidateFileName os_Stat fileName = Inl ErrorInvalidFileName
   \<and> ValidateFileName no_entries ''new.txt'' = Inl ErrorInvalidFileName"
  by (auto simp add: ValidateFileName_def os_IsNotExist_def Let_def)

subsection \<open>File types\<close>

lemma HasPrefix_iff: "HasPrefix s p \<longleftrightarrow> (\<exists>q. s = p @ q)"
  by (induction s p rule: HasPrefix.induct) auto

lemma Contains_iff: "Contains s substr \<longleftrightarrow> (\<exists>p q. s = p @ substr @ q)"
proof (induction s)
  case Nil
  show ?case by auto
next
  case (Cons c cs)
  show ?case
  proof
    assume "Contains (c # cs) substr"
    then consider "HasPrefix (c # cs) substr" | "Contains cs substr" by auto
    then show "\<exists>p q. c # cs = p @ substr @ q"
    proof cases
      case 1
      then obtain q where "c # cs = [] @ substr @ q" by (auto simp: HasPrefix_iff)
      then show ?thesis by blast
    next
      case 2
      with Cons obtain p q where "cs = p @ substr @ q" by blast
      then have "c # cs = (c # p) @ substr @ q" by simp
      then show ?thesis by blast
    qed
  next
    assume "\<exists>p q. c # cs = p @ substr @ q"
    then obtain p q where pq: "c # cs = p @ substr @ q" by blast
    show "Contains (c # cs) substr"
    proof (cases p)
      case Nil
      with pq have "HasPrefix (c # cs) substr" by (auto simp: HasPrefix_iff)
      then show ?thesis by simp
    next
      case (Cons d ds)
      with pq have "cs = ds @ substr @ q" by simp
      with Cons.IH show ?thesis by auto
    qed
  qed
qed

lemma Contains_empty: "Contains s []"
  by (cases s) simp_all

lemma ext_scan_empty_iff:
  "ext_scan cs seen = [] \<longleftrightarrow> CHR ''.'' \<notin> set (takeWhile (\<lambda>c. c \<noteq> CHR ''/'') cs)"
  by (induction cs arbitrary: seen) auto

lemma Ext_empty_iff:
  "Ext path = [] \<longleftrightarrow> CHR ''.'' \<notin> set (takeWhile (\<lambda>c. c \<noteq> CHR ''/'') (rev path))"
  by (simp add: Ext_def ext_scan_empty_iff)

lemma ToLower_empty: "ToLower tbl [] = []"
  by (simp add: ToLower_def)

lemma empty_not_blocked: "[] \<notin> blockedExt"
  by (simp add: blockedExt_def)

lemma Ext_jpeg: "Ext ''http://x/file.jpeg'' = ''.jpeg''"
  by (simp add: Ext_def)

lemma lower_jpeg: "ToLower tbl ''.jpeg'' = ''.jpeg''"
  by (simp add: ToLower_def lower_byte_def)

lemma lower_image_jpeg: "ToLower tbl ''image/jpeg'' = ''image/jpeg''"
  by (simp add: ToLower_def lower_byte_def)

lemma jpeg_not_blocked: "''.jpeg'' \<notin> blockedExt"
  by (simp add: blockedExt_def)

lemma Ext_png: "Ext ''a.png'' = ''.png''"
  by (simp add: Ext_def)

lemma lower_png: "ToLower tbl ''.png'' = ''.png''"
  by (simp add: ToLower_def lower_byte_def)

lemma lower_image_png: "ToLower tbl ''image/png'' = ''image/png''"
  by (simp add: ToLower_def lower_byte_def)

lemma png_not_blocked: "''.png'' \<notin> blockedExt"
  by (simp add: blockedExt_def)

text \<open>
  C2. The specification: with the declared type \<open>image/jpeg\<close> and the url
  \<open>http://x/file.jpeg\<close>, \<open>ValidateFileType\<close> returns \<open>.jpeg\<close> and no error; a declared
  type is rejected with \<open>FileUnmatch\<close> when it does not agree with the extension. The
  code compares the declared type with the extension as \<open>filepath.Ext\<close> returns it,
  the leading dot included. \<open>image/jpeg\<close> does not contain \<open>.jpeg\<close>, so the call is
  rejected with \<open>FileUnmatch\<close> although the type and the extension agree, against the
  comment at that return (the declared type names another file than the url). The same
  happens with \<open>image/png\<close> and \<open>a.png\<close>, whatever the case tables are.
\<close>

theorem ValidateFileType_jpeg_rejected:
  "ValidateFileType tbl (Some ''image/jpeg'') ''http://x/file.jpeg'' = Inl ErrorFileUnmatch
   \<and> ValidateFileType tbl (Some ''image/png'') ''a.png'' = Inl ErrorFileUnmatch"
  by (simp add: ValidateFileType_def Ext_jpeg lower_jpeg lower_image_jpeg jpeg_not_blocked
      Ext_png lower_png lower_image_png png_not_blocked)

text \<open>
  C9. A url with no extension (\<open>filepath.Ext\<close> returns the empty string: there is no
  dot after the last separator) is accepted with the empty extension, whatever the
  declared type is and whether or not one is given.
\<close>

theorem ValidateFileType_no_extension:
  "Ext url = [] \<Longrightarrow> ValidateFileType tbl fileType url = Inr []"
  by (simp add: ValidateFileType_def ToLower_empty empty_not_blocked Contains_empty
      split: option.split)

theorem ValidateFileType_no_extension_witness:
  "Ext ''http://x.org/file'' = []
   \<and> ValidateFileType id (Some ''image/png'') ''http://x.org/file'' = Inr []"
proof -
  have h: "Ext ''http://x.org/file'' = []" by (simp add: Ext_def)
  show ?thesis using h ValidateFileType_no_extension [OF h, of id "Some ''image/png''"] by simp
qed

subsection \<open>Message content\<close>

text \<open>
  C8. \<open>SanitizeMessageContent\<close> panics on a nil pointer, and returns a value for every
  pointer that is not nil.
\<close>

theorem SanitizeMessageContent_nil_panics:
  "SanitizeMessageContent nfkc Sanitize None = Inl NilPointerDereference
   \<and> (\<exists>r. SanitizeMessageContent nfkc Sanitize (Some c) = Inr r)"
  by (simp add: SanitizeMessageContent_def)

subsection \<open>Passwords\<close>

text \<open>
  C3. A password whose first or last rune is white space is rejected with
  \<open>PasswordWhiteSpace\<close>, so no trimmed value is returned for it; and a password that is
  accepted is returned as it was given, byte for byte.
\<close>

theorem SanitizePasswordPolicy_no_trimming:
  "(raw \<noteq> [] \<and> (space_rune (hd (runes raw)) \<or> space_rune (last (runes raw)))
      \<longrightarrow> SanitizePasswordPolicy Validate raw = Inl ErrorPasswordWhiteSpace)
   \<and> (SanitizePasswordPolicy Validate raw = Inr p \<longrightarrow> p = raw)"
proof (intro conjI impI)
  assume "raw \<noteq> [] \<and> (space_rune (hd (runes raw)) \<or> space_rune (last (runes raw)))"
  then have "length (TrimSpace raw) < length raw" by (simp add: TrimSpace_shorter)
  then have "TrimSpace raw \<noteq> raw" by auto
  then show "SanitizePasswordPolicy Validate raw = Inl ErrorPasswordWhiteSpace"
    by (simp add: SanitizePasswordPolicy_def)
next
  assume "SanitizePasswordPolicy Validate raw = Inr p"
  then show "p = raw" by (simp add: SanitizePasswordPolicy_def split: if_splits)
qed

theorem SanitizePasswordPolicy_no_trimming_witness:
  "SanitizePasswordPolicy (\<lambda>s n. True) '' password123 '' = Inl ErrorPasswordWhiteSpace
   \<and> SanitizePasswordPolicy (\<lambda>s n. True) ''password123 '' = Inl ErrorPasswordWhiteSpace
   \<and> SanitizePasswordPolicy (\<lambda>s n. True) ''password123'' = Inr ''password123''
   \<and> ''password123'' = ''password123''"
proof -
  have a: "'' password123 '' \<noteq> [] \<and> (space_rune (hd (runes '' password123 ''))
            \<or> space_rune (last (runes '' password123 '')))"
    by (simp add: runes_ascii_Cons IsSpace_def)
  have b: "''password123 '' \<noteq> [] \<and> (space_rune (hd (runes ''password123 ''))
            \<or> space_rune (last (runes ''password123 '')))"
    by (simp add: runes_ascii_Cons IsSpace_def)
  have c: "SanitizePasswordPolicy (\<lambda>s n. True) ''password123'' = Inr ''password123''"
    by (simp add: SanitizePasswordPolicy_def TrimSpace_ascii IsSpace_def)
  show ?thesis
    using a b c SanitizePasswordPolicy_no_trimming [of "'' password123 ''" "\<lambda>s n. True"]
      SanitizePasswordPolicy_no_trimming [of "''password123 ''" "\<lambda>s n. True"]
      SanitizePasswordPolicy_no_trimming [of "''password123''" "\<lambda>s n. True" "''password123''"]
    by blast
qed

subsection \<open>Display names\<close>

text \<open>
  C4. \<open>SanitizeDisplayName\<close> is idempotent: a name it returns is returned again,
  unchanged and with no error. The normalization \<open>nfkc\<close> is the library's; the
  theorem holds for every function that is idempotent and that leaves a normalized
  string normalized when its white-space runs are collapsed to single spaces, as NFKC
  does (a space is a starter that combines with nothing).
\<close>

theorem SanitizeDisplayName_idempotent:
  assumes idem: "\<And>x. nfkc (nfkc x) = nfkc x"
    and collapse: "\<And>x. nfkc x = x \<Longrightarrow> nfkc (Join (Fields x) '' '') = Join (Fields x) '' ''"
    and ok: "SanitizeDisplayName nfkc s = Inr r"
  shows "SanitizeDisplayName nfkc r = Inr r"
proof -
  let ?x = "nfkc (TrimSpace s)"
  from ok have r: "r = Join (Fields ?x) '' ''"
    and len: "r \<noteq> []" "\<not> (RuneCountInString r < 3 \<or> RuneCountInString r > 32)"
    by (simp_all add: SanitizeDisplayName_def Let_def split: if_splits)
  have "TrimSpace r = r" by (simp add: r TrimSpace_Join Fields_nonspace)
  moreover have "nfkc r = r" unfolding r by (rule collapse) (rule idem)
  moreover have "Join (Fields r) '' '' = r" by (simp add: r collapse_idem)
  ultimately show ?thesis using len by (simp add: SanitizeDisplayName_def Let_def)
qed

lemma Fields_a_b: "Fields ''a  b'' = [''a'', ''b'']"
  by (simp add: Fields_def runes_ascii_Cons IsSpace_def)

theorem SanitizeDisplayName_idempotent_witness:
  "SanitizeDisplayName id ''  a  b  '' = Inr ''a b'' \<and> SanitizeDisplayName id ''a b'' = Inr ''a b''"
proof -
  have t: "TrimSpace ''  a  b  '' = ''a  b''" by (simp add: TrimSpace_ascii IsSpace_def)
  have ok: "SanitizeDisplayName id ''  a  b  '' = Inr ''a b''"
    by (simp add: SanitizeDisplayName_def t Fields_a_b RuneCountInString_def runes_ascii_Cons)
  have idem: "\<And>x :: string. id (id x) = id x" by simp
  have collapse: "\<And>x. id x = x \<Longrightarrow> id (Join (Fields x) '' '') = Join (Fields x) '' ''" by simp
  show ?thesis using ok SanitizeDisplayName_idempotent [of id, OF idem collapse ok] by simp
qed

lemma string_of_runes_nonspace:
  assumes "rs \<noteq> []" "\<forall>r \<in> set rs. ValidRune r \<and> \<not> IsSpace r"
  shows "nonspace (string_of_runes rs)"
proof -
  from assms(2) have r: "runes (string_of_runes rs) = map (\<lambda>r. (r, EncodeRune r)) rs"
    by (simp add: runes_string_of_runes)
  with assms(1) have "runes (string_of_runes rs) \<noteq> []" by simp
  then have "string_of_runes rs \<noteq> []" by simp
  moreover from assms(2) have "\<forall>t \<in> set (runes (string_of_runes rs)). \<not> space_rune t"
    by (auto simp: r)
  ultimately show ?thesis by (simp add: nonspace_def)
qed

lemma TrimSpace_nonspace: "nonspace x \<Longrightarrow> TrimSpace x = x"
  using TrimSpace_Join [of "[x]"] by simp

text \<open>
  C6. After trimming, normalization and the collapse of white-space runs,
  \<open>SanitizeDisplayName\<close> succeeds exactly when the result is not empty and counts
  between 3 and 32 runes, and fails with \<open>InvalidDisplayName\<close> otherwise. The count
  is the number of code points, not of bytes: the string of any valid code points
  counts as many runes as there are code points; and a string of 3 to 32 code points
  beyond ASCII, none of them white space, that is in normal form is accepted as it is,
  though it is at least twice as many bytes long (64 bytes or more for 32 code points).
\<close>

theorem SanitizeDisplayName_counts_code_points:
  "(SanitizeDisplayName nfkc s = Inr t \<longleftrightarrow>
      t = Join (Fields (nfkc (TrimSpace s))) '' '' \<and> t \<noteq> []
      \<and> 3 \<le> RuneCountInString t \<and> RuneCountInString t \<le> 32)
   \<and> (SanitizeDisplayName nfkc s = Inl ErrorInvalidDisplayName \<longleftrightarrow>
      \<not> (Join (Fields (nfkc (TrimSpace s))) '' '' \<noteq> []
         \<and> 3 \<le> RuneCountInString (Join (Fields (nfkc (TrimSpace s))) '' '')
         \<and> RuneCountInString (Join (Fields (nfkc (TrimSpace s))) '' '') \<le> 32))
   \<and> ((\<forall>r \<in> set rs. ValidRune r) \<longrightarrow> RuneCountInString (string_of_runes rs) = length rs)
   \<and> (3 \<le> length rs \<and> length rs \<le> 32
       \<and> (\<forall>r \<in> set rs. ValidRune r \<and> 0x80 \<le> r \<and> \<not> IsSpace r)
       \<and> nfkc (string_of_runes rs) = string_of_runes rs
      \<longrightarrow> SanitizeDisplayName nfkc (string_of_runes rs) = Inr (string_of_runes rs)
          \<and> 2 * length rs \<le> length (string_of_runes rs))"
proof (intro conjI impI)
  show "SanitizeDisplayName nfkc s = Inr t \<longleftrightarrow>
      t = Join (Fields (nfkc (TrimSpace s))) '' '' \<and> t \<noteq> []
      \<and> 3 \<le> RuneCountInString t \<and> RuneCountInString t \<le> 32"
    by (auto simp: SanitizeDisplayName_def Let_def)
  show "SanitizeDisplayName nfkc s = Inl ErrorInvalidDisplayName \<longleftrightarrow>
      \<not> (Join (Fields (nfkc (TrimSpace s))) '' '' \<noteq> []
         \<and> 3 \<le> RuneCountInString (Join (Fields (nfkc (TrimSpace s))) '' '')
         \<and> RuneCountInString (Join (Fields (nfkc (TrimSpace s))) '' '') \<le> 32)"
    by (auto simp: SanitizeDisplayName_def Let_def)
next
  assume "\<forall>r \<in> set rs. ValidRune r"
  then show "RuneCountInString (string_of_runes rs) = length rs"
    by (rule RuneCount_string_of_runes)
next
  let ?u = "string_of_runes rs"
  assume a: "3 \<le> length rs \<and> length rs \<le> 32
       \<and> (\<forall>r \<in> set rs. ValidRune r \<and> 0x80 \<le> r \<and> \<not> IsSpace r) \<and> nfkc ?u = ?u"
  then have "rs \<noteq> []" by auto
  with a have ns: "nonspace ?u" by (intro string_of_runes_nonspace) simp_all
  then have trim: "TrimSpace ?u = ?u" by (rule TrimSpace_nonspace)
  from ns have fields: "Fields ?u = [?u]" by (rule Fields_single)
  from ns have ne: "?u \<noteq> []" by (simp add: nonspace_def)
  from a have count: "RuneCountInString ?u = length rs"
    by (intro RuneCount_string_of_runes) simp
  from a have nf: "nfkc ?u = ?u" by simp
  from a ne show "SanitizeDisplayName nfkc ?u = Inr ?u"
    by (simp add: SanitizeDisplayName_def Let_def trim nf fields count)
  from a show "2 * length rs \<le> length ?u" by (intro length_string_of_runes) simp
qed

theorem SanitizeDisplayName_counts_code_points_witness:
  "ValidRune 0xE9 \<and> 0x80 \<le> (0xE9::nat) \<and> \<not> IsSpace 0xE9
   \<and> RuneCountInString (string_of_runes (replicate 32 0xE9)) = 32
   \<and> SanitizeDisplayName id (string_of_runes (replicate 32 0xE9))
       = Inr (string_of_runes (replicate 32 0xE9))
   \<and> 64 \<le> length (string_of_runes (replicate 32 0xE9))"
proof -
  have a: "\<forall>r \<in> set (replicate 32 0xE9). ValidRune r \<and> 0x80 \<le> r \<and> \<not> IsSpace r"
    by (simp add: ValidRune_def IsSpace_def)
  have b: "length (replicate 32 (0xE9::nat)) = 32" by simp
  show ?thesis
    using a b SanitizeDisplayName_counts_code_points [of id _ _ "replicate 32 0xE9"]
    by (simp add: ValidRune_def IsSpace_def)
qed

subsection \<open>Phone numbers\<close>

lemma plus_or_digit_byte:
  "plus_or_digit c \<longleftrightarrow> byte c = 0x2B \<or> (0x30 \<le> byte c \<and> byte c \<le> 0x39)"
proof
  assume "plus_or_digit c"
  then show "byte c = 0x2B \<or> (0x30 \<le> byte c \<and> byte c \<le> 0x39)"
    by (auto simp: plus_or_digit_def)
next
  assume "byte c = 0x2B \<or> (0x30 \<le> byte c \<and> byte c \<le> 0x39)"
  then have "byte c \<in> byte ` set ''+0123456789''" by simp arith
  then show "plus_or_digit c"
    unfolding plus_or_digit_def by (simp only: inj_image_mem_iff [OF inj_of_char])
qed

lemma keep_rune:
  assumes "t \<in> set (runes s)"
  shows "(if fst t = 0x2B \<or> (0x30 \<le> fst t \<and> fst t \<le> 0x39) then EncodeRune (fst t) else [])
         = filter plus_or_digit (snd t)"
proof -
  from token_shape [OF assms] consider c where "t = (byte c, [c])" "byte c < 0x80"
    | "0x80 \<le> fst t" "\<forall>d \<in> set (snd t). 0x80 \<le> byte d"
    by blast
  then show ?thesis
  proof cases
    case 1
    have "EncodeRune (byte c) = [c]" using 1(2) by (simp add: EncodeRune_def)
    with 1 show ?thesis by (simp add: plus_or_digit_byte)
  next
    case 2
    from 2(2) have "\<forall>d \<in> set (snd t). \<not> plus_or_digit d"
      by (auto simp: plus_or_digit_byte)
    then have "filter plus_or_digit (snd t) = []"
      by (simp only: filter_empty_conv) 
    with 2(1) show ?thesis by simp
  qed
qed

lemma keepPlusDigits_filter: "keepPlusDigits s = filter plus_or_digit s"
proof -
  have "keepPlusDigits s = concat (map (\<lambda>t. filter plus_or_digit (snd t)) (runes s))"
    unfolding keepPlusDigits_def by (intro arg_cong [where f = concat] map_cong refl keep_rune)
  also have "\<dots> = filter plus_or_digit (concat (map snd (runes s)))"
    by (simp add: filter_concat comp_def)
  finally show ?thesis by (simp only: concat_runes)
qed

lemma space_runes_no_digit:
  assumes "set B \<subseteq> set (runes s)" "\<forall>t \<in> set B. space_rune t"
  shows "filter plus_or_digit (concat (map snd B)) = []"
proof -
  have "filter plus_or_digit (snd t) = []" if "t \<in> set B" for t
  proof -
    from that assms have t: "t \<in> set (runes s)" "space_rune t" by auto
    from t(2) have "\<not> (fst t = 0x2B \<or> (0x30 \<le> fst t \<and> fst t \<le> 0x39))"
      by (auto simp: IsSpace_def)
    with keep_rune [OF t(1)] show ?thesis by simp
  qed
  then show ?thesis by (simp add: filter_concat comp_def)
qed

lemma trailing_space_runes:
  "set (rev (takeWhile space_rune (rev (dropWhile space_rune T)))) \<subseteq> set T
   \<and> (\<forall>t \<in> set (rev (takeWhile space_rune (rev (dropWhile space_rune T)))). space_rune t)"
proof (intro conjI subsetI ballI)
  fix t assume "t \<in> set (rev (takeWhile space_rune (rev (dropWhile space_rune T))))"
  then have t: "t \<in> set (takeWhile space_rune (rev (dropWhile space_rune T)))" by simp
  from set_takeWhileD [OF t] show "space_rune t" by simp
  from set_takeWhileD [OF t] have "t \<in> set (dropWhile space_rune T)" by simp
  then show "t \<in> set T" by (rule set_dropWhileD)
qed

lemma filter_TrimSpace: "filter plus_or_digit (TrimSpace s) = filter plus_or_digit s"
proof -
  let ?L = "takeWhile space_rune (runes s)" and ?D = "dropWhile space_rune (runes s)"
  let ?R = "rev (takeWhile space_rune (rev ?D))"
  have L: "filter plus_or_digit (concat (map snd ?L)) = []"
    by (rule space_runes_no_digit [of _ s]) (auto dest: set_takeWhileD)
  have R: "filter plus_or_digit (concat (map snd ?R)) = []"
    using trailing_space_runes [of "runes s"] by (intro space_runes_no_digit [of _ s]) blast+
  have "filter plus_or_digit s
        = filter plus_or_digit (concat (map snd ?L) @ TrimSpace s @ concat (map snd ?R))"
    by (rule arg_cong [OF TrimSpace_split [of s], of "filter plus_or_digit"])
  also have "\<dots> = filter plus_or_digit (TrimSpace s)"
    using L R by (simp only: filter_append append_Nil append_Nil2)
  finally show ?thesis by (rule sym)
qed

text \<open>
  C7. A nil pointer and a string that trims to the empty string give nil and no error.
  Any other string is stripped of every byte but the plus sign and the decimal digits
  (ranging over runes and over bytes agree here, and trimming removes none of these
  bytes); the result is rejected with \<open>InvalidPhoneNumber\<close> exactly when its length
  is below 7 or above 20, and returned otherwise.
\<close>

theorem SanitizePhoneE164_keeps_plus_and_digits:
  "SanitizePhoneE164 None = Inr None
   \<and> (TrimSpace p = [] \<longrightarrow> SanitizePhoneE164 (Some p) = Inr None)
   \<and> (TrimSpace p \<noteq> [] \<longrightarrow>
        SanitizePhoneE164 (Some p) =
          (if length (filter plus_or_digit p) < 7 \<or> 20 < length (filter plus_or_digit p)
           then Inl ErrorInvalidPhoneNumber
           else Inr (Some (filter plus_or_digit p))))"
  by (simp add: SanitizePhoneE164_def Let_def keepPlusDigits_filter filter_TrimSpace)

theorem SanitizePhoneE164_keeps_plus_and_digits_witness:
  "TrimSpace ''   '' = [] \<and> SanitizePhoneE164 (Some ''   '') = Inr None
   \<and> TrimSpace '' +1 (555) 123-4567 '' \<noteq> []
   \<and> SanitizePhoneE164 (Some '' +1 (555) 123-4567 '') = Inr (Some ''+15551234567'')
   \<and> TrimSpace ''555-123'' \<noteq> []
   \<and> SanitizePhoneE164 (Some ''555-123'') = Inl ErrorInvalidPhoneNumber"
proof -
  have a: "TrimSpace ''   '' = []" by (simp add: TrimSpace_ascii IsSpace_def)
  have b: "TrimSpace '' +1 (555) 123-4567 '' \<noteq> []" by (simp add: TrimSpace_ascii IsSpace_def)
  have c: "TrimSpace ''555-123'' \<noteq> []" by (simp add: TrimSpace_ascii IsSpace_def)
  show ?thesis
    using a b c SanitizePhoneE164_keeps_plus_and_digits [of "''   ''"]
      SanitizePhoneE164_keeps_plus_and_digits [of "'' +1 (555) 123-4567 ''"]
      SanitizePhoneE164_keeps_plus_and_digits [of "''555-123''"]
    by (simp add: plus_or_digit_def)
qed

subsection \<open>User names\<close>

lemma username_rune_ascii: "username_rune r \<Longrightarrow> r < 0x80"
  by (auto simp: username_rune_def)

lemma usernameRegex_ascii:
  assumes "\<forall>c \<in> set s. byte c < 0x80"
  shows "usernameRegex s \<longleftrightarrow>
           3 \<le> length s \<and> length s \<le> 32 \<and> (\<forall>c \<in> set s. username_rune (byte c))"
  by (simp add: usernameRegex_def runes_ascii [OF assms] list_all_iff comp_def)

lemma usernameRegex_iff:
  "usernameRegex s \<longleftrightarrow>
     3 \<le> length s \<and> length s \<le> 32 \<and> (\<forall>c \<in> set s. username_rune (byte c))"
proof (cases "\<forall>c \<in> set s. byte c < 0x80")
  case True
  then show ?thesis by (rule usernameRegex_ascii)
next
  case False
  then have "\<not> (\<forall>c \<in> set s. username_rune (byte c))"
    using username_rune_ascii by blast
  moreover have "\<not> usernameRegex s"
  proof
    assume "usernameRegex s"
    then have "\<forall>t \<in> set (runes s). username_rune (fst t)"
      by (simp add: usernameRegex_def list_all_iff)
    then have "\<forall>t \<in> set (runes s). fst t < 0x80" using username_rune_ascii by blast
    then have "\<forall>c \<in> set s. byte c < 0x80" by (rule ascii_runes_bytes)
    with False show False by simp
  qed
  ultimately show ?thesis by simp
qed

lemma usernameRegex_count:
  "usernameRegex s \<Longrightarrow> 3 \<le> RuneCountInString s \<and> RuneCountInString s \<le> 32"
  by (simp add: usernameRegex_def RuneCountInString_def)

lemma upper_byte_username:
  assumes "username_rune (byte c)"
  shows "lower_byte (upper_byte c) = c \<and> byte (upper_byte c) < 0x80
         \<and> \<not> IsSpace (byte (upper_byte c)) \<and> lower_byte c = c"
proof (cases "0x61 \<le> byte c \<and> byte c \<le> 0x7A")
  case True
  have "byte c - 32 < 256" using nat_of_char_less_256 [of c] by arith
  with True have u: "byte (upper_byte c) = byte c - 32" by (simp add: upper_byte_def)
  with True have r: "0x41 \<le> byte (upper_byte c) \<and> byte (upper_byte c) \<le> 0x5A" by arith
  from True u have "byte (upper_byte c) + 32 = byte c" by arith
  with r have 1: "lower_byte (upper_byte c) = c" by (simp add: lower_byte_def)
  from r have 2: "byte (upper_byte c) < 0x80" by arith
  from r have 3: "\<not> IsSpace (byte (upper_byte c))" unfolding IsSpace_def by arith
  from True have 4: "lower_byte c = c" by (simp add: lower_byte_def)
  from 1 2 3 4 show ?thesis by blast
next
  case False
  then have u: "upper_byte c = c" by (auto simp: upper_byte_def)
  from assms False have r: "byte c < 0x41 \<or> byte c = 0x5F" "byte c < 0x80" "\<not> IsSpace (byte c)"
    by (auto simp: username_rune_def IsSpace_def)
  from r(1) have "lower_byte c = c" by (auto simp: lower_byte_def)
  with r u show ?thesis by simp
qed

lemma dropWhile_self: "xs = [] \<or> \<not> P (hd xs) \<Longrightarrow> dropWhile P xs = xs"
  by (cases xs) auto

lemma trim_padded:
  assumes "S \<noteq> []" "\<forall>c \<in> set S. \<not> P c" "P x"
  shows "rev (dropWhile P (rev (dropWhile P (x # S @ [x])))) = S"
proof -
  from assms have "\<not> P (hd S)" "\<not> P (last S)" by simp_all
  with assms(1) have "dropWhile P (S @ [x]) = S @ [x]" "dropWhile P (rev S) = rev S"
    by (simp_all add: dropWhile_self hd_append hd_rev)
  with assms(3) show ?thesis by simp
qed

lemma TrimSpace_padded:
  assumes "S \<noteq> []" "\<forall>c \<in> set S. byte c < 0x80 \<and> \<not> IsSpace (byte c)"
  shows "TrimSpace ('' '' @ S @ '' '') = S"
proof -
  have "\<forall>c \<in> set ('' '' @ S @ '' ''). byte c < 0x80" using assms(2) by simp
  then have "TrimSpace ('' '' @ S @ '' '') =
      rev (dropWhile (\<lambda>c. IsSpace (byte c)) (rev (dropWhile (\<lambda>c. IsSpace (byte c))
        (CHR '' '' # S @ [CHR '' '']))))"
    by (simp add: TrimSpace_ascii)
  also have "\<dots> = S"
    using assms by (intro trim_padded) (simp_all add: IsSpace_def)
  finally show ?thesis .
qed

text \<open>
  C5. A string \<open>s\<close> of 3 to 32 bytes from \<open>[a-z0-9_.-]\<close>, upper-cased and put
  between two spaces, is accepted and returned as \<open>s\<close> lower-cased, which is \<open>s\<close>
  itself. An input whose trimmed and lower-cased form is shorter than 3 or longer than
  32, in bytes or in runes, or holds a byte outside \<open>[a-z0-9_.-]\<close>, is rejected with
  \<open>InvalidUsername\<close>.
\<close>

theorem SanitizeUsername_charset_and_length:
  "(3 \<le> length s \<and> length s \<le> 32 \<and> (\<forall>c \<in> set s. username_rune (byte c))
      \<longrightarrow> SanitizeUsername tbl ('' '' @ ToUpper tbl s @ '' '') = Inr (ToLower tbl s)
          \<and> ToLower tbl s = s)
   \<and> (length (ToLower tbl (TrimSpace x)) < 3 \<or> 32 < length (ToLower tbl (TrimSpace x))
       \<or> RuneCountInString (ToLower tbl (TrimSpace x)) < 3
       \<or> 32 < RuneCountInString (ToLower tbl (TrimSpace x))
       \<or> (\<exists>c \<in> set (ToLower tbl (TrimSpace x)). \<not> username_rune (byte c))
      \<longrightarrow> SanitizeUsername tbl x = Inl ErrorInvalidUsername)"
proof (intro conjI impI)
  assume a: "3 \<le> length s \<and> length s \<le> 32 \<and> (\<forall>c \<in> set s. username_rune (byte c))"
  then have ascii: "\<forall>c \<in> set s. byte c < 0x80" using username_rune_ascii by blast
  let ?S = "map upper_byte s"
  have up: "ToUpper tbl s = ?S" using ascii by (simp add: ToUpper_def)
  have S: "?S \<noteq> []" "\<forall>c \<in> set ?S. byte c < 0x80 \<and> \<not> IsSpace (byte c)"
    using a upper_byte_username by auto
  then have trim: "TrimSpace ('' '' @ ?S @ '' '') = ?S" by (rule TrimSpace_padded)
  have "map lower_byte ?S = s"
    using a upper_byte_username by (simp add: map_idI)
  with S(2) have low: "ToLower tbl ?S = s" by (simp add: ToLower_def)
  have "map lower_byte s = s" using a upper_byte_username by (simp add: map_idI)
  with ascii show id: "ToLower tbl s = s" by (simp add: ToLower_def)
  have "usernameRegex s" using a by (simp add: usernameRegex_iff)
  then show "SanitizeUsername tbl ('' '' @ ToUpper tbl s @ '' '') = Inr (ToLower tbl s)"
    unfolding SanitizeUsername_def Let_def up trim low id by simp
next
  let ?t = "ToLower tbl (TrimSpace x)"
  assume "length ?t < 3 \<or> 32 < length ?t \<or> RuneCountInString ?t < 3
          \<or> 32 < RuneCountInString ?t \<or> (\<exists>c \<in> set ?t. \<not> username_rune (byte c))"
  then have "\<not> usernameRegex ?t"
    using usernameRegex_iff [of ?t] usernameRegex_count [of ?t] by auto
  then show "SanitizeUsername tbl x = Inl ErrorInvalidUsername"
    by (simp add: SanitizeUsername_def Let_def)
qed

theorem SanitizeUsername_charset_and_length_witness:
  "3 \<le> length ''a_b.c-9'' \<and> length ''a_b.c-9'' \<le> 32
   \<and> list_all (\<lambda>c. username_rune (byte c)) ''a_b.c-9''
   \<and> SanitizeUsername id ('' '' @ ToUpper id ''a_b.c-9'' @ '' '') = Inr ''a_b.c-9''
   \<and> length (ToLower id (TrimSpace '' Ab '')) < 3
   \<and> SanitizeUsername id '' Ab '' = Inl ErrorInvalidUsername"
proof -
  have a: "3 \<le> length ''a_b.c-9'' \<and> length ''a_b.c-9'' \<le> 32
           \<and> (\<forall>c \<in> set ''a_b.c-9''. username_rune (byte c))"
    by (simp add: username_rune_def)
  have t: "TrimSpace '' Ab '' = ''Ab''" by (simp add: TrimSpace_ascii IsSpace_def)
  have b: "length (ToLower id (TrimSpace '' Ab '')) < 3" by (simp add: t ToLower_def)
  show ?thesis
    using a b SanitizeUsername_charset_and_length [of "''a_b.c-9''" id "'' Ab ''"]
    by (simp add: list_all_iff)
qed

subsection \<open>Colours\<close>

text \<open>
  C10. \<open>SanitizeColorFormat\<close> folds no case: a colour that is accepted is returned as
  the trimmed input, and \<open>#ABC\<close> is returned as \<open>#ABC\<close>.
\<close>

theorem SanitizeColorFormat_keeps_case:
  "(SanitizeColorFormat (Some c) = Inr (Some r) \<longrightarrow> r = TrimSpace c)
   \<and> SanitizeColorFormat (Some ''#ABC'') = Inr (Some ''#ABC'')"
proof (intro conjI impI)
  assume "SanitizeColorFormat (Some c) = Inr (Some r)"
  then show "r = TrimSpace c"
    by (simp add: SanitizeColorFormat_def Let_def split: if_splits)
next
  have "TrimSpace ''#ABC'' = ''#ABC''" by (simp add: TrimSpace_ascii IsSpace_def)
  moreover have "hexRegex ''#ABC''" by (simp add: hexRegex_def runes_ascii_Cons hex_rune_def)
  ultimately show "SanitizeColorFormat (Some ''#ABC'') = Inr (Some ''#ABC'')"
    by (simp add: SanitizeColorFormat_def)
qed

theorem SanitizeColorFormat_keeps_case_witness:
  "SanitizeColorFormat (Some '' #ABC '') = Inr (Some ''#ABC'')
   \<and> ''#ABC'' = TrimSpace '' #ABC ''"
proof -
  have t: "TrimSpace '' #ABC '' = ''#ABC''" by (simp add: TrimSpace_ascii IsSpace_def)
  have h: "hexRegex ''#ABC''" by (simp add: hexRegex_def runes_ascii_Cons hex_rune_def)
  have ok: "SanitizeColorFormat (Some '' #ABC '') = Inr (Some ''#ABC'')"
    by (simp add: SanitizeColorFormat_def t h)
  show ?thesis
    using ok SanitizeColorFormat_keeps_case [of "'' #ABC ''" "''#ABC''"] by simp
qed

end
